theory Spec2Isabelle
  imports Main "HOL-Library.Word"
begin

section \<open>Shadow nodes and the calls made on them\<close>

text \<open>
  A shadow node is held through a shared pointer, and the source compares nodes and child
  lists by address (\<^verbatim>\<open>oldChild == newChild\<close>, \<^verbatim>\<open>&oldChildren == &newChildren\<close>).
  A node therefore carries its own address \<open>ptr\<close>, the address \<open>family\<close> of its family
  object, the address of its state object when it has one, the address \<open>childrenPtr\<close> of the
  shared list of its children, and the children themselves.
\<close>

type_synonym addr = nat

datatype ShadowNode =
  ShadowNode (ptr: addr) (family: addr) (getState: "addr option")
             (childrenPtr: addr) (children: "ShadowNode list")

text \<open>
  Where a child list lives: in a shared list object at an address, or in a temporary built
  at the call (\<^verbatim>\<open>{}\<close>), whose address equals that of no other list.
\<close>

datatype list_addr = Stored addr | Temporary

type_synonym SharedShadowNodeList = "list_addr \<times> ShadowNode list"

definition getChildren :: "ShadowNode \<Rightarrow> SharedShadowNodeList" where
  "getChildren n = (Stored (childrenPtr n), children n)"

definition same_list :: "list_addr \<Rightarrow> list_addr \<Rightarrow> bool" where
  "same_list p q = (case (p, q) of (Stored a, Stored b) \<Rightarrow> a = b | _ \<Rightarrow> False)"

text \<open>
  Modelled from the spec: \<^verbatim>\<open>ShadowNode::sameFamily\<close> is defined outside this file; in the
  spec's data model a node's family is an identity that is stable across revisions, and two
  nodes are of the same family when they carry the same one.
\<close>

definition sameFamily :: "ShadowNode \<Rightarrow> ShadowNode \<Rightarrow> bool" where
  "sameFamily a b = (family a = family b)"

text \<open>
  The calls the commit engine makes on nodes and their collaborators, in the order made:
  \<^verbatim>\<open>node->setMounted(b)\<close>, \<^verbatim>\<open>state->commit(node)\<close> and
  \<^verbatim>\<open>viewEventEmitter.onLayout(...)\<close>.
\<close>

datatype event =
  SetMounted addr bool
| StateCommit addr addr
| OnLayout addr

definition CommitState :: "ShadowNode \<Rightarrow> event list" where
  "CommitState shadowNode =
     (case getState shadowNode of
        Some state \<Rightarrow> [StateCommit state (ptr shadowNode)]
      | None \<Rightarrow> [])"

section \<open>The mount-flag diff\<close>

text \<open>
  \<^verbatim>\<open>updateMountedFlag\<close> returns the calls it makes. \<open>stage1\<close> is the first loop from
  its current index on: \<^verbatim>\<open>continue\<close> moves to the next index, and both
  \<^verbatim>\<open>break\<close> and the end of either list leave the loop, after which the loops of
  stages 2 and 3 run over what remains of the new and of the old list from that index.
\<close>

function (sequential) updateMountedFlag ::
    "SharedShadowNodeList \<Rightarrow> SharedShadowNodeList \<Rightarrow> event list"
  and stage1 :: "ShadowNode list \<Rightarrow> ShadowNode list \<Rightarrow> event list"
  and stage2 :: "ShadowNode list \<Rightarrow> event list"
  and stage3 :: "ShadowNode list \<Rightarrow> event list"
where
  "updateMountedFlag (oldAddr, oldChildren) (newAddr, newChildren) =
     (if same_list oldAddr newAddr then []
      else if length oldChildren = 0 \<and> length newChildren = 0 then []
      else stage1 oldChildren newChildren)"
| "stage1 (oldChild # oldRest) (newChild # newRest) =
     (if ptr oldChild = ptr newChild then stage1 oldRest newRest
      else if \<not> sameFamily oldChild newChild
        then stage2 (newChild # newRest) @ stage3 (oldChild # oldRest)
      else SetMounted (ptr newChild) True # CommitState newChild
           @ SetMounted (ptr oldChild) False
           # updateMountedFlag (getChildren oldChild) (getChildren newChild)
           @ stage1 oldRest newRest)"
| "stage1 [] newChildren = stage2 newChildren @ stage3 []"
| "stage1 oldChildren [] = stage2 [] @ stage3 oldChildren"
| "stage2 [] = []"
| "stage2 (newChild # newRest) =
     SetMounted (ptr newChild) True # CommitState newChild
     @ updateMountedFlag (Temporary, []) (getChildren newChild)
     @ stage2 newRest"
| "stage3 [] = []"
| "stage3 (oldChild # oldRest) =
     SetMounted (ptr oldChild) False
     # updateMountedFlag (getChildren oldChild) (Temporary, [])
     @ stage3 oldRest"
  by pat_completeness auto

termination
  apply (relation "measure (\<lambda>x. case x of
          Inl (Inl ((_, old), (_, new))) \<Rightarrow> 2 * (size_list size old + size_list size new) + 2
        | Inl (Inr (old, new)) \<Rightarrow> 2 * (size_list size old + size_list size new) + 1
        | Inr (Inl new) \<Rightarrow> 2 * size_list size new
        | Inr (Inr old) \<Rightarrow> 2 * size_list size old)")
  apply (simp_all add: getChildren_def)
  subgoal for oldChild oldRest newChild newRest
    by (cases oldChild; cases newChild) simp
  subgoal for newChild newRest
    by (cases newChild) simp
  subgoal for oldChild oldRest
    by (cases oldChild) simp
  done

text \<open>
  Modelled from the spec: \<^verbatim>\<open>setMounted\<close> is declared outside this file; the spec's data
  model gives every node one mutable boolean \<open>mounted\<close> flag, and \<^verbatim>\<open>setMounted(b)\<close>
  stores \<open>b\<close> in the flag of the node it is called on. \<open>mounted_after m es\<close> are the flags
  after the calls \<open>es\<close>, made in order, from the flags \<open>m\<close>.
\<close>

fun mounted_after :: "(addr \<Rightarrow> bool) \<Rightarrow> event list \<Rightarrow> addr \<Rightarrow> bool" where
  "mounted_after m [] = m"
| "mounted_after m (SetMounted a b # es) = mounted_after (m(a := b)) es"
| "mounted_after m (StateCommit st a # es) = mounted_after m es"
| "mounted_after m (OnLayout a # es) = mounted_after m es"

section \<open>The shadow tree and its commit engine\<close>

text \<open>
  A revision is a root with its number (the telemetry it also carries is not modelled).
  The type \<open>'n\<close> of the number is declared outside this file; the spec calls it unsigned,
  so the commit engine below uses a machine word \<open>'w word\<close>, whose width is left open.
\<close>

datatype 'n ShadowTreeRevision =
  ShadowTreeRevision (getRootShadowNode: ShadowNode) (getNumber: 'n)

text \<open>
  The state of one tree: the current root, the revision counter, the revisions the mounting
  coordinator has been given (its base revision first, then every pushed one), how often the
  delegate's \<^verbatim>\<open>shadowTreeDidFinishTransaction\<close> has been called, and the calls made on nodes.
\<close>

record 'n ShadowTree =
  rootShadowNode :: ShadowNode
  revisionNumber :: 'n
  mountingCoordinator :: "'n ShadowTreeRevision list"
  delegate :: nat
  calls :: "event list"

text \<open>
  Modelled from the spec: the initialiser of the revision counter is in the class
  declaration, outside this file; the spec numbers revisions from 0, which is also the
  number of the base revision that the constructor hands to the mounting coordinator.
  The constructor is given the root that \<^verbatim>\<open>createShadowNode\<close> returned.
\<close>

definition ShadowTree_new :: "ShadowNode \<Rightarrow> ('w::len) word ShadowTree" where
  "ShadowTree_new root =
     \<lparr>rootShadowNode = root, revisionNumber = 0,
      mountingCoordinator = [ShadowTreeRevision root 0], delegate = 0, calls = []\<rparr>"

text \<open>
  A transaction returns the new root, or \<open>None\<close> for the null pointer.
  The collaborators outside this file are parameters: \<open>layout\<close> yields the nodes whose
  layout changed (the spec: it updates geometry only), \<open>onLayout\<close> tells whether a node's
  props request the event.
\<close>

type_synonym 'w tree = "'w word ShadowTree"

type_synonym ShadowTreeCommitTransaction = "ShadowNode \<Rightarrow> ShadowNode option"

record collaborators =
  layout :: "ShadowNode \<Rightarrow> addr list"
  onLayout :: "addr \<Rightarrow> bool"

fun emitLayoutEvents :: "(addr \<Rightarrow> bool) \<Rightarrow> addr list \<Rightarrow> event list" where
  "emitLayoutEvents requested [] = []"
| "emitLayoutEvents requested (layoutableNode # rest) =
     (if \<not> requested layoutableNode then emitLayoutEvents requested rest
      else OnLayout layoutableNode # emitLayoutEvents requested rest)"

text \<open>
  One attempt. No lock is held between reading the root under the shared lock and taking
  the exclusive lock, nor after the exclusive lock is released: the layout events, the push
  to the mounting coordinator and the notification of the delegate are made one after the
  other with no lock held. The other threads can act in each of these windows:
  \<open>others w\<close> is what they do to the tree in the window \<open>w\<close>. A failed attempt returns the
  tree as they left it. The result is the returned boolean and the tree afterwards.
  Telemetry and \<^verbatim>\<open>sealRecursive\<close> change nothing that this state records and are left out.
\<close>

datatype window = BeforeSwap | AfterSwap | BeforePush | BeforeNotify

definition tryCommit_interleaved ::
  "collaborators \<Rightarrow> ShadowTreeCommitTransaction \<Rightarrow> (window \<Rightarrow> 'w tree \<Rightarrow> 'w tree)
     \<Rightarrow> ('w::len) tree \<Rightarrow> bool \<times> 'w tree" where
  "tryCommit_interleaved c transaction others s =
     (let oldRootShadowNode = rootShadowNode s;
          s1 = others BeforeSwap s
      in case transaction oldRootShadowNode of
           None \<Rightarrow> (False, s1)
         | Some newRootShadowNode \<Rightarrow>
             let affectedLayoutableNodes = layout c newRootShadowNode
             in if ptr (rootShadowNode s1) \<noteq> ptr oldRootShadowNode then (False, s1)
                else
                  let s2 = s1\<lparr>rootShadowNode := newRootShadowNode\<rparr>;
                      s3 = s2\<lparr>calls := calls s2
                              @ updateMountedFlag (getChildren oldRootShadowNode)
                                                  (getChildren newRootShadowNode)\<rparr>;
                      s4 = s3\<lparr>revisionNumber := revisionNumber s3 + 1\<rparr>;
                      revisionNumber' = revisionNumber s4;
                      s5 = others AfterSwap s4;
                      s6 = s5\<lparr>calls := calls s5
                              @ emitLayoutEvents (onLayout c) affectedLayoutableNodes\<rparr>;
                      s7 = others BeforePush s6;
                      s8 = s7\<lparr>mountingCoordinator := mountingCoordinator s7
                              @ [ShadowTreeRevision newRootShadowNode revisionNumber']\<rparr>;
                      s9 = others BeforeNotify s8;
                      s10 = s9\<lparr>delegate := delegate s9 + 1\<rparr>
                  in (True, s10))"

text \<open>
  The attempt in which the other threads act in the first window only, between the
  snapshot and the swap, so that what follows the swap follows it at once.
\<close>

definition before_swap_only :: "('s \<Rightarrow> 's) \<Rightarrow> window \<Rightarrow> 's \<Rightarrow> 's" where
  "before_swap_only others w s = (case w of BeforeSwap \<Rightarrow> others s | _ \<Rightarrow> s)"

definition tryCommit ::
  "collaborators \<Rightarrow> ShadowTreeCommitTransaction \<Rightarrow> ('w tree \<Rightarrow> 'w tree)
     \<Rightarrow> ('w::len) tree \<Rightarrow> bool \<times> 'w tree" where
  "tryCommit c transaction others s =
     tryCommit_interleaved c transaction (before_swap_only others) s"

text \<open>
  The retry loop of \<^verbatim>\<open>commit\<close>, from the current value of \<^verbatim>\<open>attempts\<close>; attempt
  number \<open>k\<close> meets the interference \<open>others k\<close> between its snapshot and its swap. The assertion is modelled as compiled in:
  when it fails the run ends in \<open>AssertionFailed\<close>, with the value of \<^verbatim>\<open>attempts\<close> and the
  tree at that moment. A normal return also reports the final value of \<^verbatim>\<open>attempts\<close>,
  that is, how many times \<^verbatim>\<open>tryCommit\<close> was called.
\<close>

datatype 'n commit_error = AssertionFailed nat "'n ShadowTree"

function commit_loop ::
  "collaborators \<Rightarrow> ShadowTreeCommitTransaction \<Rightarrow> (nat \<Rightarrow> 'w tree \<Rightarrow> 'w tree)
     \<Rightarrow> nat \<Rightarrow> ('w::len) tree \<Rightarrow> 'w word commit_error + nat \<times> 'w tree" where
  "commit_loop c transaction others attempts s =
     (let attempts' = attempts + 1;
          r = tryCommit c transaction (others attempts') s
      in if fst r then Inr (attempts', snd r)
         else if attempts' < 1024 then commit_loop c transaction others attempts' (snd r)
         else Inl (AssertionFailed attempts' (snd r)))"
  by pat_completeness auto

termination
  by (relation "measure (\<lambda>(c, transaction, others, attempts, s). 1024 - attempts)") auto

definition commit ::
  "collaborators \<Rightarrow> ShadowTreeCommitTransaction \<Rightarrow> (nat \<Rightarrow> 'w tree \<Rightarrow> 'w tree)
     \<Rightarrow> ('w::len) tree \<Rightarrow> 'w word commit_error + nat \<times> 'w tree" where
  "commit c transaction others s = commit_loop c transaction others 0 s"

text \<open>
  Modelled from the spec: the copying constructor of a node and
  \<^verbatim>\<open>emptySharedShadowNodeSharedList\<close> are defined outside this file. A node is copied with
  modifications: the fields for which the fragment holds a placeholder are those of the
  source node, so the transaction of \<^verbatim>\<open>commitEmptyTree\<close> copies the old root (same family
  and state) into a newly allocated node whose children are the shared empty list.
  \<open>make_shared\<close> stands for the allocator: the address it returns for the copy;
  \<open>emptyList\<close> is the address of the shared empty list.
\<close>

definition emptySharedShadowNodeSharedList :: "addr \<Rightarrow> addr \<times> ShadowNode list" where
  "emptySharedShadowNodeSharedList emptyList = (emptyList, [])"

definition commitEmptyTree_transaction ::
  "(ShadowNode \<Rightarrow> addr) \<Rightarrow> addr \<Rightarrow> ShadowTreeCommitTransaction" where
  "commitEmptyTree_transaction make_shared emptyList oldRootShadowNode =
     Some (ShadowNode (make_shared oldRootShadowNode) (family oldRootShadowNode)
             (getState oldRootShadowNode)
             (fst (emptySharedShadowNodeSharedList emptyList))
             (snd (emptySharedShadowNodeSharedList emptyList)))"

definition commitEmptyTree ::
  "collaborators \<Rightarrow> (ShadowNode \<Rightarrow> addr) \<Rightarrow> addr \<Rightarrow> (nat \<Rightarrow> 'w tree \<Rightarrow> 'w tree)
     \<Rightarrow> ('w::len) tree \<Rightarrow> 'w word commit_error + nat \<times> 'w tree" where
  "commitEmptyTree c make_shared emptyList others s =
     commit c (commitEmptyTree_transaction make_shared emptyList) others s"

section \<open>Notions used to state the properties\<close>

text \<open>The nodes of a tree, and the nodes reachable through a list of siblings.\<close>

primrec nodes_of :: "ShadowNode \<Rightarrow> ShadowNode list" where
  "nodes_of (ShadowNode p f st cp cs) = ShadowNode p f st cp cs # concat (map nodes_of cs)"

definition reachable :: "ShadowNode list \<Rightarrow> ShadowNode list" where
  "reachable ns = concat (map nodes_of ns)"

text \<open>
  The value of \<^verbatim>\<open>lastIndexAfterFirstStage\<close>: the index at which the first loop stops,
  because one list has ended or because the two entries there are neither the same node
  nor of the same family.
\<close>

fun lastIndexAfterFirstStage :: "ShadowNode list \<Rightarrow> ShadowNode list \<Rightarrow> nat" where
  "lastIndexAfterFirstStage (oldChild # oldRest) (newChild # newRest) =
     (if ptr oldChild = ptr newChild then Suc (lastIndexAfterFirstStage oldRest newRest)
      else if \<not> sameFamily oldChild newChild then 0
      else Suc (lastIndexAfterFirstStage oldRest newRest))"
| "lastIndexAfterFirstStage [] newChildren = 0"
| "lastIndexAfterFirstStage oldChildren [] = 0"

text \<open>
  What the spec says each stage does with one entry. To commit the state of a node is to
  call \<^verbatim>\<open>commit(node)\<close> once on its state handle when it has one, and to do nothing
  otherwise. An updated pair is skipped when both are the same node, and otherwise the new
  node is mounted, its state committed, the old node unmounted and their children diffed;
  an inserted node is mounted, its state committed and its children diffed against an empty
  old list; a removed node is unmounted and its children diffed against an empty new list.
\<close>

definition state_committed :: "ShadowNode \<Rightarrow> event list" where
  "state_committed node =
     (case getState node of None \<Rightarrow> [] | Some state \<Rightarrow> [StateCommit state (ptr node)])"

definition updated :: "ShadowNode \<times> ShadowNode \<Rightarrow> event list" where
  "updated pair = (case pair of (oldChild, newChild) \<Rightarrow>
     if ptr oldChild = ptr newChild then []
     else SetMounted (ptr newChild) True # state_committed newChild
          @ SetMounted (ptr oldChild) False
          # updateMountedFlag (getChildren oldChild) (getChildren newChild))"

definition inserted :: "ShadowNode \<Rightarrow> event list" where
  "inserted newChild =
     SetMounted (ptr newChild) True # state_committed newChild
     @ updateMountedFlag (Temporary, []) (getChildren newChild)"

definition removed :: "ShadowNode \<Rightarrow> event list" where
  "removed oldChild =
     SetMounted (ptr oldChild) False # updateMountedFlag (getChildren oldChild) (Temporary, [])"

text \<open>
  The calls that mount a whole subtree, node by node from its root down and from left to
  right, each node's state committed right after the node is mounted; and the calls that
  unmount a whole subtree in the same order, where no state is committed.
\<close>

primrec mounted_subtree :: "ShadowNode \<Rightarrow> event list" where
  "mounted_subtree (ShadowNode p f st cp cs) =
     SetMounted p True
     # (case st of None \<Rightarrow> [] | Some state \<Rightarrow> [StateCommit state p])
     @ concat (map mounted_subtree cs)"

primrec unmounted_subtree :: "ShadowNode \<Rightarrow> event list" where
  "unmounted_subtree (ShadowNode p f st cp cs) =
     SetMounted p False # concat (map unmounted_subtree cs)"

text \<open>
  The pair of distinct nodes of the same family that the pass updates at a position: the
  position is an index into the two lists, then an index into the children of the pair
  found there, and so on.
\<close>

fun pair_at ::
  "SharedShadowNodeList \<Rightarrow> SharedShadowNodeList \<Rightarrow> nat list \<Rightarrow> (ShadowNode \<times> ShadowNode) option" where
  "pair_at old new [] = None"
| "pair_at old new (index # path) =
     (if same_list (fst old) (fst new) then None
      else if \<not> index < lastIndexAfterFirstStage (snd old) (snd new) then None
      else if ptr (snd old ! index) = ptr (snd new ! index) then None
      else if path = [] then Some (snd old ! index, snd new ! index)
      else pair_at (getChildren (snd old ! index)) (getChildren (snd new ! index)) path)"



text \<open>
  A log made only of transitions: a mount of a node among \<open>New\<close>, which is the call
  \<^verbatim>\<open>setMounted(true)\<close> followed at once by the commit of that node's state, or an
  unmount of a node among \<open>Old\<close>, which is the call \<^verbatim>\<open>setMounted(false)\<close> alone.
\<close>

definition transition_log :: "ShadowNode set \<Rightarrow> ShadowNode set \<Rightarrow> event list \<Rightarrow> bool" where
  "transition_log New Old es \<longleftrightarrow>
     (\<exists>ts. es = concat ts \<and>
        (\<forall>t \<in> set ts.
           (\<exists>n \<in> New. t = SetMounted (ptr n) True # state_committed n) \<or>
           (\<exists>n \<in> Old. t = [SetMounted (ptr n) False])))"


text \<open>
  A run without other threads, and a sequence of commits made one after the other on one
  tree, stopping at the first that does not return.
\<close>

definition no_interference :: "nat \<Rightarrow> 's \<Rightarrow> 's" where
  "no_interference k s = s"


section \<open>Example trees and transactions\<close>

text \<open>
  A root without children at address 1; a collaborator set whose layout reports no node;
  a transaction that always aborts; a second thread that commits an empty tree inside the
  window of an attempt, on every attempt (\<open>rival_commit\<close>) or on the first only
  (\<open>rival_once\<close>).
\<close>

definition root0 :: ShadowNode where
  "root0 = ShadowNode 1 100 None 10 []"

definition tree0 :: "64 tree" where
  "tree0 = ShadowTree_new root0"

definition no_layout :: collaborators where
  "no_layout = \<lparr>layout = (\<lambda>root. []), onLayout = (\<lambda>node. False)\<rparr>"

definition abort_transaction :: ShadowTreeCommitTransaction where
  "abort_transaction oldRootShadowNode = None"

definition next_address :: "ShadowNode \<Rightarrow> addr" where
  "next_address oldRootShadowNode = Suc (ptr oldRootShadowNode)"

definition far_address :: "ShadowNode \<Rightarrow> addr" where
  "far_address oldRootShadowNode = ptr oldRootShadowNode + 10"

definition undisturbed :: "'s \<Rightarrow> 's" where
  "undisturbed s = s"

definition rival_commit :: "nat \<Rightarrow> ('w::len) tree \<Rightarrow> 'w tree" where
  "rival_commit k s =
     snd (tryCommit no_layout (commitEmptyTree_transaction next_address 0) undisturbed s)"

definition rival_once :: "nat \<Rightarrow> ('w::len) tree \<Rightarrow> 'w tree" where
  "rival_once k s = (if k = 1 then rival_commit k s else s)"

text \<open>
  Two sibling lists: the node of family 101 is replaced by a new instance without its
  child, the node of family 102 gives way to a node of family 103.
\<close>

definition g1 :: ShadowNode where "g1 = ShadowNode 14 104 None 34 []"
definition a1 :: ShadowNode where "a1 = ShadowNode 11 101 (Some 71) 31 [g1]"
definition b1 :: ShadowNode where "b1 = ShadowNode 13 102 None 33 []"
definition a2 :: ShadowNode where "a2 = ShadowNode 12 101 (Some 72) 32 []"
definition c2 :: ShadowNode where "c2 = ShadowNode 15 103 (Some 73) 35 []"

definition old_list :: SharedShadowNodeList where "old_list = (Stored 20, [a1, b1])"
definition new_list :: SharedShadowNodeList where "new_list = (Stored 21, [a2, c2])"

definition mount_two :: ShadowTreeCommitTransaction where
  "mount_two oldRootShadowNode =
     Some (ShadowNode (Suc (ptr oldRootShadowNode)) (family oldRootShadowNode)
             (getState oldRootShadowNode) 20 [a1, b1])"

text \<open>
  The trees these runs end in: one commit of \<open>mount_two\<close>; the same commit retried after
  the rival's commit; \<open>mount_two\<close> followed by a commit of the empty tree.
\<close>

definition tree_after_retry :: "64 tree" where
  "tree_after_retry =
     \<lparr>rootShadowNode = ShadowNode 3 100 None 20 [a1, b1], revisionNumber = 2,
      mountingCoordinator =
        [ShadowTreeRevision root0 0,
         ShadowTreeRevision (ShadowNode 2 100 None 0 []) 1,
         ShadowTreeRevision (ShadowNode 3 100 None 20 [a1, b1]) 2],
      delegate = 2,
      calls = [SetMounted 11 True, StateCommit 71 11, SetMounted 14 True, SetMounted 13 True]\<rparr>"

definition tree_after_two :: "64 tree" where
  "tree_after_two =
     \<lparr>rootShadowNode = ShadowNode 3 100 None 0 [], revisionNumber = 2,
      mountingCoordinator =
        [ShadowTreeRevision root0 0,
         ShadowTreeRevision (ShadowNode 2 100 None 20 [a1, b1]) 1,
         ShadowTreeRevision (ShadowNode 3 100 None 0 []) 2],
      delegate = 2,
      calls = [SetMounted 11 True, StateCommit 71 11, SetMounted 14 True, SetMounted 13 True,
               SetMounted 11 False, SetMounted 14 False, SetMounted 13 False]\<rparr>"

definition tree_after_one :: "64 tree" where
  "tree_after_one =
     \<lparr>rootShadowNode = ShadowNode 2 100 None 20 [a1, b1], revisionNumber = 1,
      mountingCoordinator =
        [ShadowTreeRevision root0 0,
         ShadowTreeRevision (ShadowNode 2 100 None 20 [a1, b1]) 1],
      delegate = 1,
      calls = [SetMounted 11 True, StateCommit 71 11, SetMounted 14 True, SetMounted 13 True]\<rparr>"




text \<open>Flags before a pass: every node mounted, or none.\<close>

definition all_mounted :: "addr \<Rightarrow> bool" where
  "all_mounted a = True"


section \<open>Auxiliary facts\<close>

lemma CommitState_spelled: "CommitState node = state_committed node"
  by (simp add: CommitState_def state_committed_def split: option.split)

text \<open>The equations and the induction rule of the pass, with the accessors unfolded.\<close>

declare stage1.simps [simp del] stage2.simps [simp del] stage3.simps [simp del]

lemmas stage1_simps [simp] = stage1.simps [unfolded getChildren_def sameFamily_def]

lemmas stage2_simps [simp] = stage2.simps [unfolded getChildren_def]

lemmas stage3_simps [simp] = stage3.simps [unfolded getChildren_def]

lemmas diff_induct =
  updateMountedFlag_stage1_stage2_stage3.induct
    [unfolded getChildren_def sameFamily_def, case_names 1 2 3 4 5 6 7 8]

lemma tryCommit_unfold:
  "tryCommit c transaction others s =
     (let oldRootShadowNode = rootShadowNode s;
          s1 = others s
      in case transaction oldRootShadowNode of
           None \<Rightarrow> (False, s1)
         | Some newRootShadowNode \<Rightarrow>
             if ptr (rootShadowNode s1) \<noteq> ptr oldRootShadowNode then (False, s1)
             else (True, s1\<lparr>rootShadowNode := newRootShadowNode,
                     calls := calls s1
                       @ updateMountedFlag (getChildren oldRootShadowNode)
                                           (getChildren newRootShadowNode)
                       @ emitLayoutEvents (onLayout c) (layout c newRootShadowNode),
                     revisionNumber := revisionNumber s1 + 1,
                     mountingCoordinator := mountingCoordinator s1
                       @ [ShadowTreeRevision newRootShadowNode (revisionNumber s1 + 1)],
                     delegate := delegate s1 + 1\<rparr>))"
  by (simp add: tryCommit_def tryCommit_interleaved_def before_swap_only_def Let_def
        split: option.split)

lemma tryCommit_abort:
  "transaction (rootShadowNode s) = None \<Longrightarrow> tryCommit c transaction others s = (False, others s)"
  by (simp add: tryCommit_unfold Let_def)

lemma tryCommit_conflict:
  "ptr (rootShadowNode (others s)) \<noteq> ptr (rootShadowNode s)
     \<Longrightarrow> tryCommit c transaction others s = (False, others s)"
  by (simp add: tryCommit_unfold Let_def split: option.split)

lemma tryCommit_swap:
  "transaction (rootShadowNode s) = Some new \<Longrightarrow>
   ptr (rootShadowNode (others s)) = ptr (rootShadowNode s) \<Longrightarrow>
   tryCommit c transaction others s =
     (True, (others s)\<lparr>rootShadowNode := new,
        calls := calls (others s)
          @ updateMountedFlag (getChildren (rootShadowNode s)) (getChildren new)
          @ emitLayoutEvents (onLayout c) (layout c new),
        revisionNumber := revisionNumber (others s) + 1,
        mountingCoordinator := mountingCoordinator (others s)
          @ [ShadowTreeRevision new (revisionNumber (others s) + 1)],
        delegate := delegate (others s) + 1\<rparr>)"
  by (simp add: tryCommit_unfold Let_def)

lemma tryCommit_failed:
  "\<not> fst (tryCommit c transaction others s) \<Longrightarrow> snd (tryCommit c transaction others s) = others s"
  by (simp add: tryCommit_unfold Let_def split: option.splits if_splits)

lemma tryCommit_succeeded:
  "fst (tryCommit c transaction others s) \<Longrightarrow>
     (\<exists>new. transaction (rootShadowNode s) = Some new) \<and>
     ptr (rootShadowNode (others s)) = ptr (rootShadowNode s)"
  by (simp add: tryCommit_unfold Let_def split: option.splits if_splits)

declare commit_loop.simps [simp del]

lemma fold_others_step:
  "Suc a < n \<Longrightarrow> fold others [Suc (Suc a)..<n] (others (Suc a) s) = fold others [Suc a..<n] s"
  by (simp add: upt_conv_Cons)

lemma commit_loop_unfold:
  "commit_loop c transaction others a s =
     (if fst (tryCommit c transaction (others (Suc a)) s)
      then Inr (Suc a, snd (tryCommit c transaction (others (Suc a)) s))
      else if Suc a < 1024 then commit_loop c transaction others (Suc a) (others (Suc a) s)
      else Inl (AssertionFailed (Suc a) (others (Suc a) s)))"
  by (subst commit_loop.simps) (simp add: Let_def tryCommit_failed)

lemma commit_loop_returns:
  "commit_loop c transaction others a s = Inr (n, s') \<Longrightarrow>
     a < n \<and> (a < 1024 \<longrightarrow> n \<le> 1024) \<and>
     tryCommit c transaction (others n) (fold others [Suc a..<n] s) = (True, s') \<and>
     (\<forall>k. a < k \<and> k < n \<longrightarrow>
        \<not> fst (tryCommit c transaction (others k) (fold others [Suc a..<k] s)))"
proof (induction c transaction others a s rule: commit_loop.induct)
  case (1 c transaction others attempts s)
  let ?r = "tryCommit c transaction (others (Suc attempts)) s"
  show ?case
  proof (cases "fst ?r")
    case True
    then have "commit_loop c transaction others attempts s = Inr (Suc attempts, snd ?r)"
      by (simp add: commit_loop_unfold [of c transaction others attempts s])
    with "1.prems" have n: "n = Suc attempts" and s': "s' = snd ?r"
      by auto
    from True have "?r = (True, s')"
      unfolding s' by (simp add: prod_eq_iff)
    then show ?thesis
      unfolding n by auto
  next
    case False
    then have state: "snd ?r = others (Suc attempts) s"
      by (rule tryCommit_failed)
    from False "1.prems" have cap: "Suc attempts < 1024"
      and next_call: "commit_loop c transaction others (Suc attempts) (others (Suc attempts) s) = Inr (n, s')"
      by (simp_all add: commit_loop_unfold [of c transaction others attempts s]
            split: if_splits)
    from "1.IH" [OF _ refl _ cap] False next_call state
    have IH: "Suc attempts < n \<and> n \<le> 1024 \<and>
       tryCommit c transaction (others n) (fold others [Suc (Suc attempts)..<n] (others (Suc attempts) s)) = (True, s') \<and>
       (\<forall>k. Suc attempts < k \<and> k < n \<longrightarrow>
          \<not> fst (tryCommit c transaction (others k)
                  (fold others [Suc (Suc attempts)..<k] (others (Suc attempts) s))))"
      using cap by simp
    have earlier: "\<not> fst (tryCommit c transaction (others k) (fold others [Suc attempts..<k] s))"
      if "attempts < k" "k < n" for k
    proof (cases "k = Suc attempts")
      case True
      with False show ?thesis by simp
    next
      case False
      with that have "Suc attempts < k" by simp
      with IH that show ?thesis by (auto simp: fold_others_step)
    qed
    from IH earlier show ?thesis
      by (auto simp: fold_others_step)
  qed
qed

lemma commit_loop_fails:
  "commit_loop c transaction others a s = Inl e \<Longrightarrow> a < 1024 \<Longrightarrow>
     e = AssertionFailed 1024 (fold others [Suc a..<1025] s) \<and>
     (\<forall>k. a < k \<and> k \<le> 1024 \<longrightarrow>
        \<not> fst (tryCommit c transaction (others k) (fold others [Suc a..<k] s)))"
proof (induction c transaction others a s rule: commit_loop.induct)
  case (1 c transaction others attempts s)
  let ?r = "tryCommit c transaction (others (Suc attempts)) s"
  from "1.prems" have False: "\<not> fst ?r"
    by (auto simp: commit_loop_unfold [of c transaction others attempts s])
  then have state: "snd ?r = others (Suc attempts) s"
    by (rule tryCommit_failed)
  show ?case
  proof (cases "Suc attempts < 1024")
    case True
    with False "1.prems" have next_call:
      "commit_loop c transaction others (Suc attempts) (others (Suc attempts) s) = Inl e"
      by (simp add: commit_loop_unfold [of c transaction others attempts s])
    from "1.IH" [OF _ refl _ True] False next_call state True
    have IH: "e = AssertionFailed 1024 (fold others [Suc (Suc attempts)..<1025] (others (Suc attempts) s)) \<and>
       (\<forall>k. Suc attempts < k \<and> k \<le> 1024 \<longrightarrow>
          \<not> fst (tryCommit c transaction (others k)
                  (fold others [Suc (Suc attempts)..<k] (others (Suc attempts) s))))"
      by simp
    have earlier: "\<not> fst (tryCommit c transaction (others k) (fold others [Suc attempts..<k] s))"
      if "attempts < k" "k \<le> 1024" for k
    proof (cases "k = Suc attempts")
      case True
      with False show ?thesis by simp
    next
      case False
      with that have "Suc attempts < k" by simp
      with IH that show ?thesis by (auto simp: fold_others_step)
    qed
    from IH earlier True show ?thesis
      by (auto simp: fold_others_step)
  next
    case last: False
    with "1.prems" have a: "attempts = 1023" by simp
    from False last "1.prems" have "e = AssertionFailed (Suc attempts) (others (Suc attempts) s)"
      by (simp add: commit_loop_unfold [of c transaction others attempts s])
    then have e: "e = AssertionFailed 1024 (others 1024 s)"
      by (simp add: a)
    have "\<not> fst (tryCommit c transaction (others k) (fold others [Suc attempts..<k] s))"
      if "attempts < k" "k \<le> 1024" for k
    proof -
      from that a have "k = Suc attempts" by simp
      with False show ?thesis by simp
    qed
    with e a show ?thesis
      by (simp add: upt_conv_Cons)
  qed
qed

lemma commit_loop_all_fail:
  assumes "\<And>k. a < k \<Longrightarrow> k \<le> 1024 \<Longrightarrow>
             \<not> fst (tryCommit c transaction (others k) (fold others [Suc a..<k] s))"
    and "a < 1024"
  shows "commit_loop c transaction others a s =
      Inl (AssertionFailed 1024 (fold others [Suc a..<1025] s))"
proof (cases "commit_loop c transaction others a s")
  case (Inl e)
  with commit_loop_fails [OF Inl \<open>a < 1024\<close>] show ?thesis by simp
next
  case (Inr r)
  obtain n s' where "r = (n, s')" by (cases r)
  with Inr commit_loop_returns [of c transaction others a s n s'] assms
  show ?thesis by (metis fst_conv)
qed

lemma fold_no_interference: "fold no_interference ks s = s"
  by (induction ks) (simp_all add: no_interference_def)


lemma tryCommit_success_shape:
  assumes "tryCommit c transaction others s = (True, s')"
  shows "\<exists>new. transaction (rootShadowNode s) = Some new \<and>
           ptr (rootShadowNode (others s)) = ptr (rootShadowNode s) \<and>
           s' = (others s)\<lparr>rootShadowNode := new,
             calls := calls (others s)
               @ updateMountedFlag (getChildren (rootShadowNode s)) (getChildren new)
               @ emitLayoutEvents (onLayout c) (layout c new),
             revisionNumber := revisionNumber (others s) + 1,
             mountingCoordinator := mountingCoordinator (others s)
               @ [ShadowTreeRevision new (revisionNumber (others s) + 1)],
             delegate := delegate (others s) + 1\<rparr>"
  using assms by (auto simp: tryCommit_unfold Let_def split: option.splits if_splits)


lemma nodes_of_unfold: "nodes_of n = n # reachable (children n)"
  by (cases n) (simp add: reachable_def)

lemma reachable_simps [simp]:
  "reachable [] = []"
  "reachable (n # ns) = n # reachable (children n) @ reachable ns"
  by (simp_all add: reachable_def nodes_of_unfold)

lemma stage1_Nil [simp]: "stage1 [] ns = stage2 ns" "stage1 os [] = stage3 os"
  by (cases ns; simp) (cases os; simp)

lemma updateMountedFlag_inserted: "updateMountedFlag (Temporary, []) (p, ns) = stage2 ns"
  by (cases ns) (simp_all add: same_list_def)

lemma updateMountedFlag_removed: "updateMountedFlag (p, os) (Temporary, []) = stage3 os"
  by (cases os) (simp_all add: same_list_def split: list_addr.splits)

lemma stage2_inserted: "stage2 ns = concat (map inserted ns)"
  by (induction ns) (simp_all add: inserted_def getChildren_def CommitState_spelled)

lemma stage3_removed: "stage3 os = concat (map removed os)"
  by (induction os) (simp_all add: removed_def getChildren_def)

lemma stage1_stages:
  "stage1 old new =
     concat (map updated (zip (take (lastIndexAfterFirstStage old new) old)
                              (take (lastIndexAfterFirstStage old new) new)))
     @ stage2 (drop (lastIndexAfterFirstStage old new) new)
     @ stage3 (drop (lastIndexAfterFirstStage old new) old)"
  by (induction old new rule: lastIndexAfterFirstStage.induct)
     (simp_all add: updated_def getChildren_def sameFamily_def CommitState_spelled)

lemma lastIndex_takeWhile:
  "\<forall>(oldChild, newChild) \<in> set (zip old new). ptr oldChild = ptr newChild \<longrightarrow> sameFamily oldChild newChild
   \<Longrightarrow> lastIndexAfterFirstStage old new =
       length (takeWhile (\<lambda>(oldChild, newChild). sameFamily oldChild newChild) (zip old new))"
  by (induction old new rule: lastIndexAfterFirstStage.induct) auto

lemma true_events:
  "SetMounted a True \<in> set (updateMountedFlag old new) \<Longrightarrow> a \<in> ptr ` set (reachable (snd new))"
  "SetMounted a True \<in> set (stage1 os ns) \<Longrightarrow> a \<in> ptr ` set (reachable ns)"
  "SetMounted a True \<in> set (stage2 ns') \<Longrightarrow> a \<in> ptr ` set (reachable ns')"
  "SetMounted a True \<notin> set (stage3 os')"
proof (induction old new and os ns and ns' and os' rule: diff_induct)
  case (1 oldAddr oldChildren newAddr newChildren)
  then show ?case by (auto split: if_splits)
next
  case (2 oldChild oldRest newChild newRest)
  then show ?case
    by (auto simp: CommitState_def split: if_splits option.splits)
next
  case (6 newChild newRest)
  then show ?case
    by (auto simp: CommitState_def split: if_splits option.splits)
qed auto


declare updateMountedFlag.simps [simp del]


lemma stage3_unmounts_all:
  "n \<in> set (reachable os) \<Longrightarrow> SetMounted (ptr n) False \<in> set (stage3 os)"
proof (induction os arbitrary: n rule: measure_induct_rule [where f = "size_list size"])
  case (less os)
  show ?case
  proof (cases os)
    case Nil
    with less.prems show ?thesis by simp
  next
    case (Cons c cs)
    have smaller: "size_list size (children c) < size_list size os" "size_list size cs < size_list size os"
      unfolding Cons by (cases c; simp)+
    from less.prems Cons consider "n = c" | "n \<in> set (reachable (children c))" | "n \<in> set (reachable cs)"
      by auto
    then show ?thesis
    proof cases
      case 1
      then show ?thesis by (simp add: Cons)
    next
      case 2
      from less.IH [OF smaller(1) 2] show ?thesis
        by (simp add: Cons updateMountedFlag_removed)
    next
      case 3
      from less.IH [OF smaller(2) 3] show ?thesis
        by (simp add: Cons)
    qed
  qed
qed






lemma mounted_after_append:
  "mounted_after m (es @ es') = mounted_after (mounted_after m es) es'"
proof (induction es arbitrary: m)
  case Nil
  show ?case by simp
next
  case (Cons e es)
  show ?case
    by (cases e) (simp_all only: append_Cons mounted_after.simps Cons.IH)
qed

lemma mounted_after_decided:
  "SetMounted a b \<in> set es \<Longrightarrow> SetMounted a (\<not> b) \<notin> set es \<Longrightarrow> mounted_after m es a = b"
proof (induction es arbitrary: m rule: rev_induct)
  case Nil
  then show ?case by simp
next
  case (snoc e es)
  show ?case
  proof (cases e)
    case (SetMounted a' b')
    with snoc show ?thesis
      by (cases "a' = a") (auto simp: mounted_after_append)
  next
    case (StateCommit st a')
    with snoc show ?thesis by (auto simp: mounted_after_append)
  next
    case (OnLayout a')
    with snoc show ?thesis by (auto simp: mounted_after_append)
  qed
qed




lemma transition_log_Nil: "transition_log New Old []"
  unfolding transition_log_def by (rule exI [of _ "[]"]) simp

lemma transition_log_append:
  assumes "transition_log New Old es" and "transition_log New Old es'"
  shows "transition_log New Old (es @ es')"
proof -
  from assms obtain ts ts' where "es = concat ts" "es' = concat ts'"
    and "\<forall>t \<in> set ts. (\<exists>n \<in> New. t = SetMounted (ptr n) True # state_committed n) \<or>
           (\<exists>n \<in> Old. t = [SetMounted (ptr n) False])"
    and "\<forall>t \<in> set ts'. (\<exists>n \<in> New. t = SetMounted (ptr n) True # state_committed n) \<or>
           (\<exists>n \<in> Old. t = [SetMounted (ptr n) False])"
    unfolding transition_log_def by blast
  then show ?thesis
    unfolding transition_log_def by (intro exI [of _ "ts @ ts'"]) auto
qed

lemma transition_log_mono:
  assumes "transition_log New Old es" and "New \<subseteq> New'" and "Old \<subseteq> Old'"
  shows "transition_log New' Old' es"
proof -
  from assms(1) obtain ts where "es = concat ts"
    and "\<forall>t \<in> set ts. (\<exists>n \<in> New. t = SetMounted (ptr n) True # state_committed n) \<or>
           (\<exists>n \<in> Old. t = [SetMounted (ptr n) False])"
    unfolding transition_log_def by blast
  with assms(2,3) show ?thesis
    unfolding transition_log_def by (intro exI [of _ ts]) blast
qed

lemma transition_log_mount: "n \<in> New \<Longrightarrow> transition_log New Old (SetMounted (ptr n) True # CommitState n)"
  unfolding transition_log_def
  by (rule exI [of _ "[SetMounted (ptr n) True # CommitState n]"])
     (auto simp: CommitState_spelled)

lemma transition_log_unmount: "n \<in> Old \<Longrightarrow> transition_log New Old [SetMounted (ptr n) False]"
  unfolding transition_log_def
  by (rule exI [of _ "[[SetMounted (ptr n) False]]"]) auto

lemma transitions_only:
  "transition_log (set (reachable (snd new))) (set (reachable (snd old))) (updateMountedFlag old new)"
  "transition_log (set (reachable ns)) (set (reachable os)) (stage1 os ns)"
  "transition_log (set (reachable ns')) {} (stage2 ns')"
  "transition_log {} (set (reachable os')) (stage3 os')"
proof (induction old new and os ns and ns' and os' rule: diff_induct)
  case (1 oldAddr oldChildren newAddr newChildren)
  then show ?case
    by (simp add: updateMountedFlag.simps transition_log_Nil)
next
  case (2 oldChild oldRest newChild newRest)
  let ?New = "set (reachable (newChild # newRest))" and ?Old = "set (reachable (oldChild # oldRest))"
  show ?case
  proof (cases "ptr oldChild = ptr newChild")
    case True
    with "2.IH"(1) have "transition_log (set (reachable newRest)) (set (reachable oldRest)) (stage1 oldRest newRest)"
      by simp
    then have "transition_log ?New ?Old (stage1 oldRest newRest)"
      by (rule transition_log_mono) auto
    with True show ?thesis by simp
  next
    case differ: False
    show ?thesis
    proof (cases "family oldChild = family newChild")
      case False
      from "2.IH"(2) differ False have "transition_log ?New {} (stage2 (newChild # newRest))"
        by simp
      then have a: "transition_log ?New ?Old (stage2 (newChild # newRest))"
        by (rule transition_log_mono) auto
      from "2.IH"(3) differ False have "transition_log {} ?Old (stage3 (oldChild # oldRest))"
        by simp
      then have b: "transition_log ?New ?Old (stage3 (oldChild # oldRest))"
        by (rule transition_log_mono) auto
      from transition_log_append [OF a b] differ False show ?thesis
        by (simp del: stage2_simps stage3_simps)
    next
      case True
      have a: "transition_log ?New ?Old (SetMounted (ptr newChild) True # CommitState newChild)"
        by (rule transition_log_mount) simp
      have b: "transition_log ?New ?Old [SetMounted (ptr oldChild) False]"
        by (rule transition_log_unmount) simp
      from "2.IH"(4) differ True
      have "transition_log (set (reachable (children newChild))) (set (reachable (children oldChild)))
              (updateMountedFlag (Stored (childrenPtr oldChild), children oldChild)
                 (Stored (childrenPtr newChild), children newChild))"
        by simp
      then have c: "transition_log ?New ?Old
              (updateMountedFlag (Stored (childrenPtr oldChild), children oldChild)
                 (Stored (childrenPtr newChild), children newChild))"
        by (rule transition_log_mono) auto
      from "2.IH"(5) differ True
      have "transition_log (set (reachable newRest)) (set (reachable oldRest)) (stage1 oldRest newRest)"
        by simp
      then have d: "transition_log ?New ?Old (stage1 oldRest newRest)"
        by (rule transition_log_mono) auto
      from transition_log_append [OF transition_log_append [OF a b] transition_log_append [OF c d]]
        differ True
      show ?thesis by simp
    qed
  qed
next
  case (3 newChildren)
  then show ?case
    by (simp add: transition_log_mono)
next
  case (4 v va)
  then show ?case
    by (simp del: stage3_simps add: transition_log_mono)
next
  case 5
  show ?case by (simp add: transition_log_Nil)
next
  case (6 newChild newRest)
  let ?New = "set (reachable (newChild # newRest))"
  have a: "transition_log ?New {} (SetMounted (ptr newChild) True # CommitState newChild)"
    by (rule transition_log_mount) simp
  from "6.IH"(1) have b: "transition_log ?New {}
      (updateMountedFlag (Temporary, []) (Stored (childrenPtr newChild), children newChild))"
    by (rule transition_log_mono) auto
  from "6.IH"(2) have c: "transition_log ?New {} (stage2 newRest)"
    by (rule transition_log_mono) auto
  from transition_log_append [OF a transition_log_append [OF b c]]
  show ?case by simp
next
  case 7
  show ?case by (simp add: transition_log_Nil)
next
  case (8 oldChild oldRest)
  let ?Old = "set (reachable (oldChild # oldRest))"
  have a: "transition_log {} ?Old [SetMounted (ptr oldChild) False]"
    by (rule transition_log_unmount) simp
  from "8.IH"(1) have b: "transition_log {} ?Old
      (updateMountedFlag (Stored (childrenPtr oldChild), children oldChild) (Temporary, []))"
    by (rule transition_log_mono) auto
  from "8.IH"(2) have c: "transition_log {} ?Old (stage3 oldRest)"
    by (rule transition_log_mono) auto
  from transition_log_append [OF a transition_log_append [OF b c]]
  show ?case by simp
qed

lemma stage1_first:
  "0 < lastIndexAfterFirstStage (oldChild # oldRest) (newChild # newRest) \<Longrightarrow>
     stage1 (oldChild # oldRest) (newChild # newRest) =
       updated (oldChild, newChild) @ stage1 oldRest newRest \<and>
     lastIndexAfterFirstStage (oldChild # oldRest) (newChild # newRest) =
       Suc (lastIndexAfterFirstStage oldRest newRest) \<and>
     (ptr oldChild \<noteq> ptr newChild \<longrightarrow> sameFamily oldChild newChild)"
  by (simp add: updated_def getChildren_def sameFamily_def CommitState_spelled split: if_splits)

lemma stage1_at_index:
  "index < lastIndexAfterFirstStage os ns \<Longrightarrow> ptr (os ! index) \<noteq> ptr (ns ! index) \<Longrightarrow>
     sameFamily (os ! index) (ns ! index) \<and>
     (\<exists>pre post. stage1 os ns = pre @ updated (os ! index, ns ! index) @ post)"
proof (induction os ns arbitrary: index rule: lastIndexAfterFirstStage.induct)
  case (1 oldChild oldRest newChild newRest)
  from "1.prems"(1) have pos: "0 < lastIndexAfterFirstStage (oldChild # oldRest) (newChild # newRest)"
    by simp
  note first = stage1_first [OF pos]
  show ?case
  proof (cases index)
    case 0
    with first "1.prems"(2) have "stage1 (oldChild # oldRest) (newChild # newRest) =
        [] @ updated ((oldChild # oldRest) ! index, (newChild # newRest) ! index) @ stage1 oldRest newRest"
      by simp
    with 0 first "1.prems"(2) show ?thesis by fastforce
  next
    case (Suc j)
    with first "1.prems" have j: "j < lastIndexAfterFirstStage oldRest newRest"
      "ptr (oldRest ! j) \<noteq> ptr (newRest ! j)"
      by simp_all
    have "sameFamily (oldRest ! j) (newRest ! j) \<and>
       (\<exists>pre post. stage1 oldRest newRest = pre @ updated (oldRest ! j, newRest ! j) @ post)"
    proof (cases "ptr oldChild = ptr newChild")
      case True
      from "1.IH"(1) [OF True j] show ?thesis .
    next
      case False
      with first have "\<not> \<not> sameFamily oldChild newChild" by simp
      from "1.IH"(2) [OF False this j] show ?thesis .
    qed
    then obtain pre post where fam: "sameFamily (oldRest ! j) (newRest ! j)"
      and "stage1 oldRest newRest = pre @ updated (oldRest ! j, newRest ! j) @ post"
      by blast
    with first have "stage1 (oldChild # oldRest) (newChild # newRest) =
        (updated (oldChild, newChild) @ pre) @ updated (oldRest ! j, newRest ! j) @ post"
      by simp
    with fam Suc show ?thesis
      by (metis nth_Cons_Suc)
  qed
qed simp_all

lemma pair_at_processed:
  "pair_at old new path = Some (oldChild, newChild) \<Longrightarrow>
     ptr oldChild \<noteq> ptr newChild \<and> sameFamily oldChild newChild \<and>
     (\<exists>pre post. updateMountedFlag old new = pre @ updated (oldChild, newChild) @ post)"
proof (induction path arbitrary: old new)
  case Nil
  then show ?case by simp
next
  case (Cons index path)
  obtain oldAddr oldChildren newAddr newChildren
    where old: "old = (oldAddr, oldChildren)" and new: "new = (newAddr, newChildren)"
    by (cases old, cases new) blast
  let ?o = "oldChildren ! index" and ?n = "newChildren ! index"
  from Cons.prems have lists: "\<not> same_list oldAddr newAddr"
    and index: "index < lastIndexAfterFirstStage oldChildren newChildren"
    and differ: "ptr ?o \<noteq> ptr ?n"
    by (simp_all add: old new split: if_splits)
  from index have "\<not> (length oldChildren = 0 \<and> length newChildren = 0)"
    by (cases oldChildren; cases newChildren) simp_all
  with lists have whole: "updateMountedFlag old new = stage1 oldChildren newChildren"
    by (simp add: old new updateMountedFlag.simps)
  from stage1_at_index [OF index differ] obtain pre post
    where fam: "sameFamily ?o ?n"
      and here: "stage1 oldChildren newChildren = pre @ updated (?o, ?n) @ post"
    by blast
  show ?case
  proof (cases "path = []")
    case True
    with Cons.prems lists index differ have "oldChild = ?o" "newChild = ?n"
      by (simp_all add: old new)
    with differ fam whole here show ?thesis by auto
  next
    case False
    with Cons.prems lists index differ
    have "pair_at (getChildren ?o) (getChildren ?n) path = Some (oldChild, newChild)"
      by (simp add: old new)
    from Cons.IH [OF this] obtain pre' post'
      where pair: "ptr oldChild \<noteq> ptr newChild" "sameFamily oldChild newChild"
        and below: "updateMountedFlag (getChildren ?o) (getChildren ?n)
                      = pre' @ updated (oldChild, newChild) @ post'"
      by blast
    from differ below have "updated (?o, ?n) =
        (SetMounted (ptr ?n) True # CommitState ?n @ SetMounted (ptr ?o) False # pre')
        @ updated (oldChild, newChild) @ post'"
      by (simp add: updated_def CommitState_spelled)
    with whole here have "updateMountedFlag old new =
        (pre @ SetMounted (ptr ?n) True # CommitState ?n @ SetMounted (ptr ?o) False # pre')
        @ updated (oldChild, newChild) @ (post' @ post)"
      by simp
    with pair show ?thesis by blast
  qed
qed

lemma emitLayoutEvents_no_flag: "SetMounted a b \<notin> set (emitLayoutEvents requested nodes)"
  by (induction nodes) simp_all

lemma mounted_after_untouched:
  "\<forall>b. SetMounted a b \<notin> set es \<Longrightarrow> mounted_after m es a = m a"
proof (induction es arbitrary: m)
  case Nil
  show ?case by simp
next
  case (Cons e es)
  then show ?case by (cases e) auto
qed

lemma unmount_everything:
  assumes "x \<in> set (reachable os)"
  shows "\<not> mounted_after m (before @ stage3 os @ emitLayoutEvents requested nodes) (ptr x)"
proof -
  have "\<not> mounted_after (mounted_after m before) (stage3 os) (ptr x)"
    using stage3_unmounts_all [OF assms] true_events(4) [of "ptr x" os]
      mounted_after_decided [of "ptr x" False "stage3 os"]
    by simp
  then show ?thesis
    by (simp add: mounted_after_append mounted_after_untouched emitLayoutEvents_no_flag)
qed

lemma rival_commit_root:
  "rootShadowNode (rival_commit k s) =
     ShadowNode (Suc (ptr (rootShadowNode s))) (family (rootShadowNode s))
       (getState (rootShadowNode s)) 0 []"
  by (simp add: rival_commit_def tryCommit_unfold undisturbed_def commitEmptyTree_transaction_def
        emptySharedShadowNodeSharedList_def next_address_def Let_def)

lemma rival_commit_conflicts:
  "\<not> fst (tryCommit c transaction (rival_commit k) s)"
  by (simp add: tryCommit_conflict rival_commit_root)

lemma rival_commit_tree0:
  "rival_commit k tree0 =
     \<lparr>rootShadowNode = ShadowNode 2 100 None 0 [], revisionNumber = 1,
      mountingCoordinator =
        [ShadowTreeRevision (ShadowNode 1 100 None 10 []) 0,
         ShadowTreeRevision (ShadowNode 2 100 None 0 []) 1],
      delegate = 1, calls = []\<rparr>"
  by (simp add: rival_commit_def tryCommit_unfold undisturbed_def commitEmptyTree_transaction_def
        emptySharedShadowNodeSharedList_def next_address_def Let_def tree0_def ShadowTree_new_def
        root0_def getChildren_def updateMountedFlag.simps same_list_def no_layout_def)

lemmas example_defs =
  tree0_def ShadowTree_new_def root0_def a1_def b1_def g1_def a2_def c2_def no_layout_def
  mount_two_def undisturbed_def no_interference_def getChildren_def same_list_def
  CommitState_def commitEmptyTree_transaction_def emptySharedShadowNodeSharedList_def
  next_address_def far_address_def

lemma mount_two_tree0:
  "tryCommit no_layout mount_two undisturbed tree0 = (True, tree_after_one)"
  by (simp add: tryCommit_unfold Let_def example_defs tree_after_one_def updateMountedFlag.simps)

lemma retry_example:
  "commit no_layout mount_two rival_once tree0 = Inr (2, tree_after_retry)"
proof -
  have first: "tryCommit no_layout mount_two (rival_once (Suc 0)) tree0
                 = (False, rival_commit (Suc 0) tree0)"
    by (simp add: rival_once_def tryCommit_conflict rival_commit_root)
  have second: "tryCommit no_layout mount_two (rival_once (Suc (Suc 0))) (rival_commit (Suc 0) tree0)
                  = (True, tree_after_retry)"
    by (simp add: rival_commit_tree0 rival_once_def tryCommit_unfold Let_def mount_two_def
          getChildren_def same_list_def updateMountedFlag.simps no_layout_def a1_def b1_def
          g1_def CommitState_def tree_after_retry_def root0_def)
  show ?thesis
    by (simp add: commit_def commit_loop_unfold [of _ _ _ 0]
          commit_loop_unfold [of _ _ _ "Suc 0"] first second rival_once_def)
qed


lemma lastIndex_same: "lastIndexAfterFirstStage xs xs = length xs"
  by (induction xs) simp_all

lemma updated_same: "concat (map updated (zip xs xs)) = []"
  by (induction xs) (simp_all add: updated_def)



lemma updateMountedFlag_stages:
  "\<not> same_list oldAddr newAddr \<Longrightarrow>
   updateMountedFlag (oldAddr, oldChildren) (newAddr, newChildren) =
     concat (map updated (zip (take (lastIndexAfterFirstStage oldChildren newChildren) oldChildren)
                              (take (lastIndexAfterFirstStage oldChildren newChildren) newChildren)))
     @ concat (map inserted (drop (lastIndexAfterFirstStage oldChildren newChildren) newChildren))
     @ concat (map removed (drop (lastIndexAfterFirstStage oldChildren newChildren) oldChildren))"
proof (cases "length oldChildren = 0 \<and> length newChildren = 0")
  case True
  then show ?thesis by (simp add: updateMountedFlag.simps)
next
  case False
  assume "\<not> same_list oldAddr newAddr"
  with False have "updateMountedFlag (oldAddr, oldChildren) (newAddr, newChildren)
      = stage1 oldChildren newChildren"
    by (simp add: updateMountedFlag.simps)
  then show ?thesis
    by (simp only: stage1_stages [of oldChildren newChildren] stage2_inserted stage3_removed)
qed

lemma diff_example:
  "updateMountedFlag old_list new_list =
     [SetMounted 12 True, StateCommit 72 12, SetMounted 11 False, SetMounted 14 False,
      SetMounted 15 True, StateCommit 73 15, SetMounted 13 False]"
  by (simp add: old_list_def new_list_def a1_def a2_def b1_def c2_def g1_def
        updateMountedFlag.simps same_list_def CommitState_def)

lemma boundary_example: "lastIndexAfterFirstStage [a1, b1] [a2, c2] = 1"
  by (simp add: a1_def a2_def b1_def c2_def sameFamily_def)



lemma commitEmptyTree_transaction_result:
  "commitEmptyTree_transaction make_shared emptyList oldRootShadowNode =
     Some (ShadowNode (make_shared oldRootShadowNode) (family oldRootShadowNode)
             (getState oldRootShadowNode) emptyList [])"
  by (simp add: commitEmptyTree_transaction_def emptySharedShadowNodeSharedList_def)

lemma empty_tree_example:
  "commitEmptyTree no_layout next_address 0 no_interference tree_after_one
     = Inr (1, tree_after_two)"
  by (simp add: commitEmptyTree_def commit_def commit_loop_unfold [of _ _ _ 0]
        tryCommit_unfold Let_def example_defs tree_after_one_def tree_after_two_def
        updateMountedFlag.simps)






lemma stage2_subtrees: "stage2 ns = concat (map mounted_subtree ns)"
proof (induction ns rule: measure_induct_rule [where f = "size_list size"])
  case (less ns)
  show ?case
  proof (cases ns)
    case Nil
    then show ?thesis by simp
  next
    case (Cons node rest)
    obtain p f st cp cs where node: "node = ShadowNode p f st cp cs"
      by (cases node)
    have "size_list size cs < size_list size ns" "size_list size rest < size_list size ns"
      unfolding Cons node by simp_all
    then have "stage2 cs = concat (map mounted_subtree cs)"
      and "stage2 rest = concat (map mounted_subtree rest)"
      by (simp_all add: less.IH)
    then show ?thesis
      by (simp add: Cons node updateMountedFlag_inserted CommitState_def split: option.split)
  qed
qed

lemma stage3_subtrees: "stage3 os = concat (map unmounted_subtree os)"
proof (induction os rule: measure_induct_rule [where f = "size_list size"])
  case (less os)
  show ?case
  proof (cases os)
    case Nil
    then show ?thesis by simp
  next
    case (Cons node rest)
    obtain p f st cp cs where node: "node = ShadowNode p f st cp cs"
      by (cases node)
    have "size_list size cs < size_list size os" "size_list size rest < size_list size os"
      unfolding Cons node by simp_all
    then have "stage3 cs = concat (map unmounted_subtree cs)"
      and "stage3 rest = concat (map unmounted_subtree rest)"
      by (simp_all add: less.IH)
    then show ?thesis
      by (simp add: Cons node updateMountedFlag_removed)
  qed
qed

lemma updateMountedFlag_subtrees:
  assumes "same_list oldAddr newAddr \<longrightarrow> oldChildren = newChildren"
  shows "updateMountedFlag (oldAddr, oldChildren) (newAddr, newChildren) =
     concat (map updated (zip (take (lastIndexAfterFirstStage oldChildren newChildren) oldChildren)
                              (take (lastIndexAfterFirstStage oldChildren newChildren) newChildren)))
     @ concat (map mounted_subtree
                 (drop (lastIndexAfterFirstStage oldChildren newChildren) newChildren))
     @ concat (map unmounted_subtree
                 (drop (lastIndexAfterFirstStage oldChildren newChildren) oldChildren))"
proof (cases "same_list oldAddr newAddr")
  case True
  with assms have "oldChildren = newChildren" by simp
  with True show ?thesis
    by (simp add: updateMountedFlag.simps lastIndex_same updated_same)
next
  case False
  show ?thesis
  proof (cases "length oldChildren = 0 \<and> length newChildren = 0")
    case True
    then show ?thesis by (simp add: updateMountedFlag.simps)
  next
    case nonempty: False
    with False have "updateMountedFlag (oldAddr, oldChildren) (newAddr, newChildren)
        = stage1 oldChildren newChildren"
      by (simp add: updateMountedFlag.simps)
    then show ?thesis
      by (simp only: stage1_stages [of oldChildren newChildren] stage2_subtrees stage3_subtrees)
  qed
qed

lemma skip_boundary_example: "lastIndexAfterFirstStage [a1, b1] [a1, c2] = 1"
  by (simp add: a1_def b1_def c2_def sameFamily_def)

section \<open>Properties of the commit engine\<close>

text \<open>
  Claim C7 (conflict atomicity). If, when the exclusive lock is taken, the current root is
  not the root that was read as the snapshot, \<^verbatim>\<open>tryCommit\<close> returns false and the tree is
  exactly as the other threads left it: this attempt has changed neither the root nor the
  revision counter, has made no call on any node, has pushed no revision and has not
  notified the delegate.
\<close>

theorem conflict_changes_nothing:
  "ptr (rootShadowNode (others s)) \<noteq> ptr (rootShadowNode s) \<Longrightarrow>
     tryCommit c transaction others s = (False, others s)"
  by (simp add: tryCommit_unfold Let_def split: option.split)

theorem conflict_changes_nothing_witness:
  "ptr (rootShadowNode (rival_commit 1 tree0)) \<noteq> ptr (rootShadowNode tree0) \<and>
   tryCommit no_layout mount_two (rival_commit 1) tree0 = (False, rival_commit 1 tree0)"
proof -
  have changed: "ptr (rootShadowNode (rival_commit 1 tree0)) \<noteq> ptr (rootShadowNode tree0)"
    by (simp add: rival_commit_root)
  from changed
    conflict_changes_nothing [where others = "rival_commit 1" and s = tree0
      and c = no_layout and transaction = mount_two]
  show ?thesis
    by simp
qed

text \<open>
  Claim C1 (abort), as amended. A transaction that returns the null root makes its attempt
  return false with the tree exactly as the other threads left it: no new root, no new
  revision number, nothing pushed, no notification. But \<^verbatim>\<open>commit\<close> does not tell an
  abort from a conflict: it retries, and with a transaction that always aborts it makes
  1024 attempts and then fails its assertion instead of returning.
\<close>

theorem abort_is_retried_to_the_cap:
  assumes "\<forall>root. transaction root = None"
  shows "tryCommit c transaction interference s = (False, interference s) \<and>
         commit c transaction others s = Inl (AssertionFailed 1024 (fold others [1..<1025] s))"
proof
  from assms show "tryCommit c transaction interference s = (False, interference s)"
    by (simp add: tryCommit_abort)
  from assms have "\<not> fst (tryCommit c transaction (others k) t)" for k t
    by (simp add: tryCommit_abort)
  then show "commit c transaction others s = Inl (AssertionFailed 1024 (fold others [1..<1025] s))"
    unfolding commit_def by (simp add: commit_loop_all_fail)
qed

theorem abort_is_retried_to_the_cap_witness:
  "(\<forall>root. abort_transaction root = None) \<and>
   tryCommit no_layout abort_transaction undisturbed tree0 = (False, undisturbed tree0) \<and>
   commit no_layout abort_transaction rival_once tree0 =
     Inl (AssertionFailed 1024 (fold rival_once [1..<1025] tree0))"
proof -
  have aborts: "\<forall>root. abort_transaction root = None"
    by (simp add: abort_transaction_def)
  from aborts
    abort_is_retried_to_the_cap [where transaction = abort_transaction and c = no_layout
      and interference = undisturbed and s = tree0 and others = rival_once]
  show ?thesis
    by simp
qed

text \<open>
  The claim as written fails: with the transaction that always aborts and no other thread,
  \<^verbatim>\<open>commit\<close> on the freshly constructed tree does not return; it ends in the failed
  assertion after 1024 attempts.
\<close>

theorem abort_does_not_return:
  "commit no_layout abort_transaction no_interference tree0 = Inl (AssertionFailed 1024 tree0)"
proof -
  have "\<not> fst (tryCommit no_layout abort_transaction (no_interference k) t)"
    for k and t :: "64 tree"
    by (simp add: tryCommit_abort abort_transaction_def)
  then show ?thesis
    unfolding commit_def by (simp add: commit_loop_all_fail fold_no_interference)
qed

text \<open>
  Claim C8 (retry cap), as amended. \<^verbatim>\<open>commit\<close> never makes more than 1024 attempts.
  When it returns, it has made between 1 and 1024 attempts, the last one succeeded and all
  earlier ones failed. Otherwise all 1024 attempts failed and the run ends in the failed
  assertion, which is fatal, not a return. (The assertion is modelled as compiled in.)
\<close>

theorem retry_cap:
  "(commit c transaction others s = Inr (n, s') \<longrightarrow>
      1 \<le> n \<and> n \<le> 1024 \<and>
      tryCommit c transaction (others n) (fold others [1..<n] s) = (True, s') \<and>
      (\<forall>k. 1 \<le> k \<and> k < n \<longrightarrow>
         \<not> fst (tryCommit c transaction (others k) (fold others [1..<k] s)))) \<and>
   (commit c transaction others' t = Inl e \<longrightarrow>
      e = AssertionFailed 1024 (fold others' [1..<1025] t) \<and>
      (\<forall>k. 1 \<le> k \<and> k \<le> 1024 \<longrightarrow>
         \<not> fst (tryCommit c transaction (others' k) (fold others' [1..<k] t))))"
proof (intro conjI impI)
  assume "commit c transaction others s = Inr (n, s')"
  then have run: "commit_loop c transaction others 0 s = Inr (n, s')"
    by (simp add: commit_def)
  note facts = commit_loop_returns [OF run]
  from facts show "1 \<le> n" "n \<le> 1024" by simp_all
  from facts show "tryCommit c transaction (others n) (fold others [1..<n] s) = (True, s')"
    by simp
  from facts show "\<forall>k. 1 \<le> k \<and> k < n \<longrightarrow>
         \<not> fst (tryCommit c transaction (others k) (fold others [1..<k] s))"
    by (simp add: Suc_le_eq)
next
  assume "commit c transaction others' t = Inl e"
  then have run: "commit_loop c transaction others' 0 t = Inl e"
    by (simp add: commit_def)
  note facts = commit_loop_fails [OF run]
  from facts show "e = AssertionFailed 1024 (fold others' [1..<1025] t)"
    by simp
  from facts show "\<forall>k. 1 \<le> k \<and> k \<le> 1024 \<longrightarrow>
         \<not> fst (tryCommit c transaction (others' k) (fold others' [1..<k] t))"
    by (simp add: Suc_le_eq)
qed

theorem retry_cap_witness:
  "commit no_layout mount_two rival_once tree0 = Inr (2, tree_after_retry) \<and>
   (1::nat) \<le> 2 \<and> (2::nat) \<le> 1024 \<and>
   tryCommit no_layout mount_two (rival_once 2) (fold rival_once [1..<2] tree0)
     = (True, tree_after_retry) \<and>
   commit no_layout mount_two rival_commit tree0
     = Inl (AssertionFailed 1024 (fold rival_commit [1..<1025] tree0))"
proof -
  have returns: "commit no_layout mount_two rival_once tree0 = Inr (2, tree_after_retry)"
    by (rule retry_example)
  have fails: "commit no_layout mount_two rival_commit tree0
     = Inl (AssertionFailed 1024 (fold rival_commit [1..<1025] tree0))"
    unfolding commit_def by (simp add: commit_loop_all_fail rival_commit_conflicts)
  from returns fails
    retry_cap [where c = no_layout and transaction = mount_two and others = rival_once
      and s = tree0 and n = 2 and s' = tree_after_retry and others' = rival_commit
      and t = tree0 and e = "AssertionFailed 1024 (fold rival_commit [1..<1025] tree0)"]
  show ?thesis
    by simp
qed

text \<open>
  The claim as written fails: against a rival that commits inside every window, \<^verbatim>\<open>commit\<close>
  does make a 1024th attempt, which fails like the 1023 before it; only then does the
  assertion fail.
\<close>

theorem a_1024th_attempt_is_made_and_fails:
  "commit no_layout mount_two rival_commit tree0
     = Inl (AssertionFailed 1024 (fold rival_commit [1..<1025] tree0)) \<and>
   \<not> fst (tryCommit no_layout mount_two (rival_commit 1024) (fold rival_commit [1..<1024] tree0))"
  unfolding commit_def by (simp add: commit_loop_all_fail rival_commit_conflicts)

text \<open>
  Claim C3 (no stale root). When \<^verbatim>\<open>tryCommit\<close> succeeds, the root at the moment of the
  swap is the very root that was read as the snapshot, and the new current root is what the
  transaction made of that snapshot. When the root has changed in between, the attempt is
  rejected. When \<^verbatim>\<open>commit\<close> returns after \<open>n\<close> attempts, the committed root is the
  transaction applied to the root read at the start of the last attempt, that is, from the
  tree as the earlier, rejected attempts found it left by the other threads, and that root
  was still current at the swap.
\<close>

theorem never_a_stale_root:
  "(tryCommit c transaction others s = (True, s') \<longrightarrow>
      ptr (rootShadowNode (others s)) = ptr (rootShadowNode s) \<and>
      transaction (rootShadowNode s) = Some (rootShadowNode s')) \<and>
   (ptr (rootShadowNode (others' t)) \<noteq> ptr (rootShadowNode t) \<longrightarrow>
      tryCommit c transaction others' t = (False, others' t)) \<and>
   (commit c transaction schedule u = Inr (n, u') \<longrightarrow>
      transaction (rootShadowNode (fold schedule [1..<n] u)) = Some (rootShadowNode u') \<and>
      ptr (rootShadowNode (schedule n (fold schedule [1..<n] u)))
        = ptr (rootShadowNode (fold schedule [1..<n] u)))"
proof (intro conjI impI)
  assume "tryCommit c transaction others s = (True, s')"
  from tryCommit_success_shape [OF this]
  show "ptr (rootShadowNode (others s)) = ptr (rootShadowNode s)"
    and "transaction (rootShadowNode s) = Some (rootShadowNode s')"
    by auto
next
  assume "ptr (rootShadowNode (others' t)) \<noteq> ptr (rootShadowNode t)"
  then show "tryCommit c transaction others' t = (False, others' t)"
    by (rule tryCommit_conflict)
next
  assume "commit c transaction schedule u = Inr (n, u')"
  then have "commit_loop c transaction schedule 0 u = Inr (n, u')"
    by (simp add: commit_def)
  from commit_loop_returns [OF this]
  have last: "tryCommit c transaction (schedule n) (fold schedule [1..<n] u) = (True, u')"
    by simp
  from tryCommit_success_shape [OF last]
  show "transaction (rootShadowNode (fold schedule [1..<n] u)) = Some (rootShadowNode u')"
    and "ptr (rootShadowNode (schedule n (fold schedule [1..<n] u)))
        = ptr (rootShadowNode (fold schedule [1..<n] u))"
    by auto
qed

theorem never_a_stale_root_witness:
  "tryCommit no_layout mount_two undisturbed tree0 = (True, tree_after_one) \<and>
   ptr (rootShadowNode (undisturbed tree0)) = ptr (rootShadowNode tree0) \<and>
   mount_two (rootShadowNode tree0) = Some (rootShadowNode tree_after_one) \<and>
   ptr (rootShadowNode (rival_commit 1 tree0)) \<noteq> ptr (rootShadowNode tree0) \<and>
   tryCommit no_layout mount_two (rival_commit 1) tree0 = (False, rival_commit 1 tree0) \<and>
   commit no_layout mount_two rival_once tree0 = Inr (2, tree_after_retry) \<and>
   mount_two (rootShadowNode (fold rival_once [1..<2] tree0))
     = Some (rootShadowNode tree_after_retry)"
proof -
  have swapped: "tryCommit no_layout mount_two undisturbed tree0 = (True, tree_after_one)"
    by (rule mount_two_tree0)
  have changed: "ptr (rootShadowNode (rival_commit 1 tree0)) \<noteq> ptr (rootShadowNode tree0)"
    by (simp add: rival_commit_root)
  have retried: "commit no_layout mount_two rival_once tree0 = Inr (2, tree_after_retry)"
    by (rule retry_example)
  from swapped changed retried
    never_a_stale_root [where c = no_layout and transaction = mount_two
      and others = undisturbed and s = tree0 and s' = tree_after_one
      and others' = "rival_commit 1" and t = tree0
      and schedule = rival_once and u = tree0 and n = 2 and u' = tree_after_retry]
  show ?thesis
    by simp
qed




section \<open>Properties of the mount-flag diff\<close>

text \<open>
  Claim C4 (three stages). The calls of the pass on two sibling lists are, in this order:
  those of stage 1 for the pairs at the indices below the boundary, those of stage 2 for
  every new entry from the boundary on (mounted, state committed by one \<^verbatim>\<open>commit(node)\<close>
  on its state when it has one, children diffed against an empty old list), and those of
  stage 3 for every old entry from the boundary on
  (unmounted, children diffed against an empty new list). This holds whenever the two lists
  are not one and the same list object with different contents, as in any memory. The
  boundary is the first index at which the two entries do not share a family, or the
  length of the shorter list: stage 1 stops where the entries are neither the same node nor
  of the same family, and a node is of its own family.
\<close>

theorem three_stages:
  "((same_list oldAddr newAddr \<longrightarrow> oldChildren = newChildren) \<longrightarrow>
      updateMountedFlag (oldAddr, oldChildren) (newAddr, newChildren) =
        (let boundary = lastIndexAfterFirstStage oldChildren newChildren
         in concat (map updated (zip (take boundary oldChildren) (take boundary newChildren)))
            @ concat (map inserted (drop boundary newChildren))
            @ concat (map removed (drop boundary oldChildren)))) \<and>
   ((\<forall>(oldChild, newChild) \<in> set (zip oldChildren newChildren).
        ptr oldChild = ptr newChild \<longrightarrow> sameFamily oldChild newChild) \<longrightarrow>
      lastIndexAfterFirstStage oldChildren newChildren =
        length (takeWhile (\<lambda>(oldChild, newChild). sameFamily oldChild newChild)
                  (zip oldChildren newChildren)))"
proof (intro conjI impI)
  assume lists: "same_list oldAddr newAddr \<longrightarrow> oldChildren = newChildren"
  show "updateMountedFlag (oldAddr, oldChildren) (newAddr, newChildren) =
        (let boundary = lastIndexAfterFirstStage oldChildren newChildren
         in concat (map updated (zip (take boundary oldChildren) (take boundary newChildren)))
            @ concat (map inserted (drop boundary newChildren))
            @ concat (map removed (drop boundary oldChildren)))"
  proof (cases "same_list oldAddr newAddr")
    case True
    with lists have "oldChildren = newChildren" by simp
    with True show ?thesis
      by (simp add: updateMountedFlag.simps lastIndex_same updated_same)
  next
    case False
    then show ?thesis
      unfolding Let_def by (rule updateMountedFlag_stages)
  qed
next
  assume "\<forall>(oldChild, newChild) \<in> set (zip oldChildren newChildren).
        ptr oldChild = ptr newChild \<longrightarrow> sameFamily oldChild newChild"
  then show "lastIndexAfterFirstStage oldChildren newChildren =
        length (takeWhile (\<lambda>(oldChild, newChild). sameFamily oldChild newChild)
                  (zip oldChildren newChildren))"
    by (rule lastIndex_takeWhile)
qed

theorem three_stages_witness:
  "\<not> same_list (Stored 20) (Stored 21) \<and>
   sameFamily a1 a2 \<and> \<not> sameFamily b1 c2 \<and> ptr a1 \<noteq> ptr a2 \<and> ptr b1 \<noteq> ptr c2 \<and>
   lastIndexAfterFirstStage [a1, b1] [a2, c2] =
     length (takeWhile (\<lambda>(oldChild, newChild). sameFamily oldChild newChild)
               (zip [a1, b1] [a2, c2])) \<and>
   updated (a1, a2) = [SetMounted 12 True, StateCommit 72 12, SetMounted 11 False,
                       SetMounted 14 False] \<and>
   inserted c2 = [SetMounted 15 True, StateCommit 73 15] \<and>
   removed b1 = [SetMounted 13 False] \<and>
   updateMountedFlag (Stored 20, [a1, b1]) (Stored 21, [a2, c2]) =
     [SetMounted 12 True, StateCommit 72 12, SetMounted 11 False, SetMounted 14 False,
      SetMounted 15 True, StateCommit 73 15, SetMounted 13 False]"
proof -
  have lists: "\<not> same_list (Stored 20) (Stored 21)" "\<not> same_list (Stored 31) (Stored 32)"
    by (simp_all add: same_list_def)
  have pairs: "sameFamily a1 a2" "\<not> sameFamily b1 c2" "ptr a1 \<noteq> ptr a2" "ptr b1 \<noteq> ptr c2"
    by (simp_all add: a1_def a2_def b1_def c2_def sameFamily_def)
  have no_child: "updateMountedFlag (Temporary, []) (Stored 35, []) = []"
    "updateMountedFlag (Stored 33, []) (Temporary, []) = []"
    "updateMountedFlag (Stored 34, []) (Temporary, []) = []"
    using three_stages [where oldAddr = Temporary and newAddr = "Stored 35"
        and oldChildren = "[]" and newChildren = "[]"]
      three_stages [where oldAddr = "Stored 33" and newAddr = Temporary
        and oldChildren = "[]" and newChildren = "[]"]
      three_stages [where oldAddr = "Stored 34" and newAddr = Temporary
        and oldChildren = "[]" and newChildren = "[]"]
    by (simp_all add: same_list_def)
  have below: "updateMountedFlag (Stored 31, [g1]) (Stored 32, []) = [SetMounted 14 False]"
    using lists no_child
      three_stages [where oldAddr = "Stored 31" and newAddr = "Stored 32"
        and oldChildren = "[g1]" and newChildren = "[]"]
    by (simp add: removed_def getChildren_def g1_def)
  have entries: "updated (a1, a2) = [SetMounted 12 True, StateCommit 72 12, SetMounted 11 False,
                       SetMounted 14 False]"
    "inserted c2 = [SetMounted 15 True, StateCommit 73 15]"
    "removed b1 = [SetMounted 13 False]"
    using below no_child
    by (simp_all add: updated_def inserted_def removed_def state_committed_def getChildren_def
          a1_def a2_def b1_def c2_def g1_def)
  from lists pairs boundary_example entries
    three_stages [where oldAddr = "Stored 20" and newAddr = "Stored 21"
      and oldChildren = "[a1, b1]" and newChildren = "[a2, c2]"]
  show ?thesis
    by simp
qed

text \<open>
  Claim C5 (remount ordering). Whenever the pass updates a pair of distinct nodes of the
  same family at the same index, at the top or at any depth, its log contains, next to each
  other and in this order: the new node's \<^verbatim>\<open>setMounted(true)\<close>, the commit of the new
  node's state if it has one, and the old node's \<^verbatim>\<open>setMounted(false)\<close>.
\<close>

theorem mount_before_unmount:
  "pair_at old new path = Some (oldChild, newChild) \<Longrightarrow>
     ptr oldChild \<noteq> ptr newChild \<and> sameFamily oldChild newChild \<and>
     (\<exists>before after. updateMountedFlag old new =
        before @ SetMounted (ptr newChild) True # CommitState newChild
               @ SetMounted (ptr oldChild) False # after)"
proof -
  assume "pair_at old new path = Some (oldChild, newChild)"
  from pair_at_processed [OF this] obtain pre post
    where pair: "ptr oldChild \<noteq> ptr newChild" "sameFamily oldChild newChild"
      and "updateMountedFlag old new = pre @ updated (oldChild, newChild) @ post"
    by blast
  then have "updateMountedFlag old new =
      pre @ SetMounted (ptr newChild) True # CommitState newChild
          @ SetMounted (ptr oldChild) False
          # (updateMountedFlag (getChildren oldChild) (getChildren newChild) @ post)"
    by (simp add: updated_def CommitState_spelled)
  with pair show ?thesis by blast
qed

theorem mount_before_unmount_witness:
  "pair_at old_list new_list [0] = Some (a1, a2) \<and>
   ptr a1 \<noteq> ptr a2 \<and> sameFamily a1 a2 \<and>
   (\<exists>before after.
      [SetMounted 12 True, StateCommit 72 12, SetMounted 11 False, SetMounted 14 False,
       SetMounted 15 True, StateCommit 73 15, SetMounted 13 False] =
      before @ SetMounted (ptr a2) True # CommitState a2 @ SetMounted (ptr a1) False # after)"
proof -
  have pair: "pair_at old_list new_list [0] = Some (a1, a2)"
    using boundary_example
    by (simp add: old_list_def new_list_def same_list_def) (simp add: a1_def a2_def)
  from mount_before_unmount [OF pair] pair show ?thesis
    by (simp add: diff_example)
qed



text \<open>
  Claim C9 (state commit). The log of the pass, at every depth, is made of transitions and
  nothing else: a mount of a node of the new lists, which is \<^verbatim>\<open>setMounted(true)\<close> followed
  at once by one \<^verbatim>\<open>commit(node)\<close> on the node's state when it has one and by nothing
  otherwise, or an unmount of a node of the old lists, which is \<^verbatim>\<open>setMounted(false)\<close>
  alone. And the pass on two sibling lists makes exactly these calls: for each pair below
  the boundary of stage 1, none when the two entries are the same node, and otherwise the
  mount of the new node, the commit of its state, the unmount of the old node and the calls
  of the pass on their children; then, for each new entry from the boundary on, the mount of
  every node of its subtree, each followed by the commit of its state; then, for each old
  entry from the boundary on, the unmount of every node of its subtree and no state commit.
\<close>

theorem state_committed_once_per_mount:
  "(\<exists>transitions. updateMountedFlag old new = concat transitions \<and>
      (\<forall>t \<in> set transitions.
         (\<exists>node \<in> set (reachable (snd new)).
            t = SetMounted (ptr node) True # state_committed node) \<or>
         (\<exists>node \<in> set (reachable (snd old)). t = [SetMounted (ptr node) False]))) \<and>
   ((same_list oldAddr newAddr \<longrightarrow> oldChildren = newChildren) \<longrightarrow>
      updateMountedFlag (oldAddr, oldChildren) (newAddr, newChildren) =
        (let boundary = lastIndexAfterFirstStage oldChildren newChildren
         in concat (map updated (zip (take boundary oldChildren) (take boundary newChildren)))
            @ concat (map mounted_subtree (drop boundary newChildren))
            @ concat (map unmounted_subtree (drop boundary oldChildren))))"
proof (intro conjI impI)
  from transitions_only(1) [of new old]
  show "\<exists>transitions. updateMountedFlag old new = concat transitions \<and>
      (\<forall>t \<in> set transitions.
         (\<exists>node \<in> set (reachable (snd new)).
            t = SetMounted (ptr node) True # state_committed node) \<or>
         (\<exists>node \<in> set (reachable (snd old)). t = [SetMounted (ptr node) False]))"
    unfolding transition_log_def .
next
  assume "same_list oldAddr newAddr \<longrightarrow> oldChildren = newChildren"
  then show "updateMountedFlag (oldAddr, oldChildren) (newAddr, newChildren) =
        (let boundary = lastIndexAfterFirstStage oldChildren newChildren
         in concat (map updated (zip (take boundary oldChildren) (take boundary newChildren)))
            @ concat (map mounted_subtree (drop boundary newChildren))
            @ concat (map unmounted_subtree (drop boundary oldChildren)))"
    unfolding Let_def by (rule updateMountedFlag_subtrees)
qed

theorem state_committed_once_per_mount_witness:
  "\<not> same_list (Stored 31) (Stored 32) \<and>
   updateMountedFlag (Stored 31, [g1]) (Stored 32, []) = [SetMounted 14 False] \<and>
   \<not> same_list (Stored 20) (Stored 21) \<and>
   updateMountedFlag (Stored 20, [a1, b1]) (Stored 21, [a2, c2]) =
     [SetMounted 12 True, StateCommit 72 12, SetMounted 11 False, SetMounted 14 False,
      SetMounted 15 True, StateCommit 73 15, SetMounted 13 False] \<and>
   \<not> same_list (Stored 20) (Stored 22) \<and>
   updateMountedFlag (Stored 20, [a1, b1]) (Stored 22, [a1, c2]) =
     [SetMounted 15 True, StateCommit 73 15, SetMounted 13 False] \<and>
   (\<exists>transitions. updateMountedFlag old_list new_list = concat transitions)"
proof -
  have lists: "\<not> same_list (Stored 31) (Stored 32)" "\<not> same_list (Stored 20) (Stored 21)"
    "\<not> same_list (Stored 20) (Stored 22)"
    by (simp_all add: same_list_def)
  have below: "updateMountedFlag (Stored 31, [g1]) (Stored 32, []) = [SetMounted 14 False]"
    using lists state_committed_once_per_mount [where oldAddr = "Stored 31"
        and newAddr = "Stored 32" and oldChildren = "[g1]" and newChildren = "[]"]
    by (simp add: g1_def)
  have remount: "updateMountedFlag (Stored 20, [a1, b1]) (Stored 21, [a2, c2]) =
     [SetMounted 12 True, StateCommit 72 12, SetMounted 11 False, SetMounted 14 False,
      SetMounted 15 True, StateCommit 73 15, SetMounted 13 False]"
    using lists boundary_example below
      state_committed_once_per_mount [where oldAddr = "Stored 20"
        and newAddr = "Stored 21" and oldChildren = "[a1, b1]" and newChildren = "[a2, c2]"]
    by (simp add: updated_def state_committed_def getChildren_def)
       (simp add: a1_def a2_def b1_def c2_def g1_def)
  have skipped: "updateMountedFlag (Stored 20, [a1, b1]) (Stored 22, [a1, c2]) =
     [SetMounted 15 True, StateCommit 73 15, SetMounted 13 False]"
    using lists skip_boundary_example
      state_committed_once_per_mount [where oldAddr = "Stored 20"
        and newAddr = "Stored 22" and oldChildren = "[a1, b1]" and newChildren = "[a1, c2]"]
    by (simp add: updated_def) (simp add: b1_def c2_def)
  from state_committed_once_per_mount [where old = old_list and new = new_list]
  have "\<exists>transitions. updateMountedFlag old_list new_list = concat transitions"
    by blast
  with lists below remount skipped show ?thesis
    by simp
qed

text \<open>
  Claim C10 (empty tree). The transaction of \<^verbatim>\<open>commitEmptyTree\<close> always yields a new root
  with the family and state of the root it is given and no children. When the commit
  returns, the current root is that new root made from the root read by the last attempt,
  the pass has run between that root's children and the shared empty list, the new current
  root has no children and every node in every child subtree of the previous root has its
  flag cleared. (In any memory the shared empty list is empty, so a previous root with
  children does not hold them in that list object.)
\<close>

theorem commitEmptyTree_unmounts_everything:
  assumes "commitEmptyTree c make_shared emptyList others s = Inr (n, s')"
    and "previous = rootShadowNode (fold others [1..<n] s)"
    and "children previous = [] \<or> childrenPtr previous \<noteq> emptyList"
  shows "(\<exists>newRoot. commitEmptyTree_transaction make_shared emptyList previous = Some newRoot \<and>
            family newRoot = family previous \<and> getState newRoot = getState previous \<and>
            children newRoot = [] \<and> rootShadowNode s' = newRoot) \<and>
         calls s' = calls (others n (fold others [1..<n] s))
           @ updateMountedFlag (getChildren previous) (Stored emptyList, [])
           @ emitLayoutEvents (onLayout c) (layout c (rootShadowNode s')) \<and>
         children (rootShadowNode s') = [] \<and>
         (\<forall>node \<in> set (reachable (children previous)).
            \<not> mounted_after m (calls s') (ptr node))"
proof -
  let ?before = "fold others [1..<n] s"
  let ?new = "ShadowNode (make_shared previous) (family previous) (getState previous) emptyList []"
  from assms(1) have "commit_loop c (commitEmptyTree_transaction make_shared emptyList) others 0 s
      = Inr (n, s')"
    by (simp add: commitEmptyTree_def commit_def)
  from commit_loop_returns [OF this]
  have "tryCommit c (commitEmptyTree_transaction make_shared emptyList) (others n) ?before
      = (True, s')"
    by simp
  from tryCommit_success_shape [OF this]
  have root: "rootShadowNode s' = ?new"
    and log: "calls s' = calls (others n ?before)
           @ updateMountedFlag (getChildren previous) (getChildren ?new)
           @ emitLayoutEvents (onLayout c) (layout c ?new)"
    by (auto simp: commitEmptyTree_transaction_result assms(2))
  have diff: "updateMountedFlag (getChildren previous) (Stored emptyList, [])
                = stage3 (children previous)"
    using assms(3)
    by (auto simp: getChildren_def updateMountedFlag.simps same_list_def)
  have "\<not> mounted_after m (calls s') (ptr node)"
    if "node \<in> set (reachable (children previous))" for node
    using unmount_everything [OF that] log diff
    by (simp add: getChildren_def)
  with root log show ?thesis
    by (simp add: commitEmptyTree_transaction_result getChildren_def)
qed

theorem commitEmptyTree_unmounts_everything_witness:
  "commitEmptyTree no_layout next_address 0 no_interference tree_after_one
     = Inr (1, tree_after_two) \<and>
   rootShadowNode tree_after_one = rootShadowNode (fold no_interference [1..<1] tree_after_one) \<and>
   childrenPtr (rootShadowNode tree_after_one) \<noteq> 0 \<and>
   children (rootShadowNode tree_after_one) = [a1, b1] \<and>
   children (rootShadowNode tree_after_two) = [] \<and>
   \<not> mounted_after all_mounted (calls tree_after_two) (ptr a1) \<and>
   \<not> mounted_after all_mounted (calls tree_after_two) (ptr g1) \<and>
   \<not> mounted_after all_mounted (calls tree_after_two) (ptr b1)"
proof -
  have previous: "rootShadowNode tree_after_one
      = rootShadowNode (fold no_interference [1..<1] tree_after_one)"
    by simp
  have lists: "children (rootShadowNode tree_after_one) = []
      \<or> childrenPtr (rootShadowNode tree_after_one) \<noteq> 0"
    by (simp add: tree_after_one_def)
  have nodes: "a1 \<in> set (reachable (children (rootShadowNode tree_after_one)))"
    "g1 \<in> set (reachable (children (rootShadowNode tree_after_one)))"
    "b1 \<in> set (reachable (children (rootShadowNode tree_after_one)))"
    by (simp_all add: tree_after_one_def a1_def)
  note facts = commitEmptyTree_unmounts_everything [OF empty_tree_example previous lists,
      of all_mounted]
  from facts nodes have "\<not> mounted_after all_mounted (calls tree_after_two) (ptr a1)"
    "\<not> mounted_after all_mounted (calls tree_after_two) (ptr g1)"
    "\<not> mounted_after all_mounted (calls tree_after_two) (ptr b1)"
    by blast+
  moreover from facts have "children (rootShadowNode tree_after_two) = []"
    by blast
  ultimately show ?thesis
    using empty_tree_example by (simp add: tree_after_one_def)
qed

end
